theory Spec2Isabelle
  imports Main "HOL-Library.Word"
begin

section \<open>Data model of collatz.c\<close>

text \<open>
  \<^verbatim>\<open>uintmax_t\<close> is a 64-bit unsigned integer and \<^verbatim>\<open>unsigned int\<close> a 32-bit one;
  their arithmetic wraps around, which the word types do as well.
\<close>

type_synonym uintmax = "64 word"
type_synonym uint = "32 word"

text \<open>
  The two ways the program can stop abnormally: a failed \<^verbatim>\<open>assert\<close> and the
  dereference of a \<^verbatim>\<open>NULL\<close> pointer.
\<close>

datatype error = AssertFailed | NullDeref

text \<open>
  A \<^verbatim>\<open>node *\<close> owns the node it points to, so a pointer is modelled by the tree below
  it and \<^verbatim>\<open>NULL\<close> by \<open>Null\<close>.  The field \<^verbatim>\<open>last\<close> is called \<open>lastn\<close> here.
\<close>

datatype node = Null
  | Node (first: uintmax) (lastn: uintmax) (covered: uintmax) (depth: uint)
      (left: node) (right: node)

text \<open>
  The non-owning pointer \<^verbatim>\<open>proven\<close> is modelled by the position of its target: the
  list of turns that lead from the root to the node.  Nodes never move, so a position
  names the same node for as long as the node lives.
\<close>

datatype dir = L | R

type_synonym ptr = "dir list"

fun node_at :: "node \<Rightarrow> ptr \<Rightarrow> node option" where
  "node_at Null p = None"
| "node_at n [] = Some n"
| "node_at (Node f l c d lt rt) (L # p) = node_at lt p"
| "node_at (Node f l c d lt rt) (R # p) = node_at rt p"

text \<open>The global variables that the tree operations read and write.\<close>

record treevars =
  proven :: "ptr option"
  nodes :: uint
  maxnodes :: uint
  maxdepth :: uint

definition LEAF_NODE :: "node \<Rightarrow> bool" where
  "LEAF_NODE n = (left n = Null \<and> right n = Null)"

section \<open>Tree operations\<close>

text \<open>
  \<^verbatim>\<open>create\<close>: the argument \<open>p\<close> is the position at which the caller stores the new
  node.  Allocation is assumed to succeed.  The counter \<^verbatim>\<open>nodes\<close> is incremented by
  the statement \<^verbatim>\<open>nodes++\<close> and again by the test \<^verbatim>\<open>++nodes > maxnodes\<close>.
\<close>

definition create :: "uint \<Rightarrow> uintmax \<Rightarrow> uintmax \<Rightarrow> ptr \<Rightarrow> treevars \<Rightarrow> node \<times> treevars" where
  "create d f l p g =
     (let n = Node f l (l - f + 1) d Null Null;
          g1 = (if d > maxdepth g then g\<lparr>maxdepth := d\<rparr> else g);
          g2 = g1\<lparr>nodes := nodes g1 + 1\<rparr>;
          g3 = g2\<lparr>nodes := nodes g2 + 1\<rparr>;
          g4 = (if nodes g3 > maxnodes g3 then g3\<lparr>maxnodes := nodes g3\<rparr> else g3);
          g5 = (if f = 1 then g4\<lparr>proven := Some p\<rparr> else g4)
      in (n, g5))"

fun destroy :: "node \<Rightarrow> treevars \<Rightarrow> treevars" where
  "destroy Null g = g"
| "destroy (Node f l c d lt rt) g =
     (let g1 = destroy lt g; g2 = destroy rt g1 in g2\<lparr>nodes := nodes g2 - 1\<rparr>)"

definition insert_into_leaf ::
  "node \<Rightarrow> ptr \<Rightarrow> uintmax \<Rightarrow> uintmax \<Rightarrow> treevars \<Rightarrow> error + (bool \<times> node \<times> treevars)" where
  "insert_into_leaf n p f l g =
     (case n of
        Null \<Rightarrow> Inl NullDeref
      | Node nf nl nc nd lt rt \<Rightarrow>
          if \<not> (lt = Null \<and> rt = Null) then Inl AssertFailed
          else if f \<ge> nf \<and> l \<le> nl then Inr (True, n, g)
          else if f \<le> nl + 1 \<and> l \<ge> nf - 1 then
            (let nf' = (if f < nf then f else nf);
                 nl' = (if l > nl then l else nl)
             in Inr (False, Node nf' nl' (nl' - nf' + 1) nd Null Null,
                     if nf' = 1 then g\<lparr>proven := Some p\<rparr> else g))
          else if l < nf - 1 then
            (let (lc, g1) = create (nd + 1) f l (p @ [L]) g;
                 (rc, g2) = create (nd + 1) nf nl (p @ [R]) g1
             in Inr (False, Node (first lc) (lastn rc) (covered lc + covered rc) nd lc rc, g2))
          else if f > nl + 1 then
            (let (lc, g1) = create (nd + 1) nf nl (p @ [L]) g;
                 (rc, g2) = create (nd + 1) f l (p @ [R]) g1
             in Inr (False, Node (first lc) (lastn rc) (covered lc + covered rc) nd lc rc, g2))
          else Inl AssertFailed)"

text \<open>
  \<^verbatim>\<open>insert\<close> (here \<open>insert_tree\<close>) and \<^verbatim>\<open>insert_into_internal\<close> call each other.
  Each returns the flag of the source, the node as it has been changed in place and the
  global variables.
\<close>

fun insert_into_internal ::
  "node \<Rightarrow> ptr \<Rightarrow> uintmax \<Rightarrow> uintmax \<Rightarrow> treevars \<Rightarrow> error + (bool \<times> node \<times> treevars)"
and insert_tree ::
  "node \<Rightarrow> ptr \<Rightarrow> uintmax \<Rightarrow> uintmax \<Rightarrow> treevars \<Rightarrow> error + (bool \<times> node \<times> treevars)"
where
  "insert_into_internal Null p f l g = Inl NullDeref"
| "insert_into_internal (Node nf nl nc nd lt rt) p f l g =
     (if \<not> (lt \<noteq> Null \<and> rt \<noteq> Null) then Inl AssertFailed
      else if f \<le> lastn lt + 1 \<and> l \<ge> first rt - 1 then
        (let nf' = (if f < nf then f else nf);
             nl' = (if l > nl then l else nl);
             g1 = destroy lt g;
             g2 = destroy rt g1
         in Inr (False, Node nf' nl' (nl' - nf' + 1) nd Null Null,
                 if nf' = 1 then g2\<lparr>proven := Some p\<rparr> else g2))
      else
        (case (if f > lastn lt + 1 \<and> l < first rt - 1 then
                 (if depth lt < depth rt then Inr L else Inr R)
               else if l < first rt - 1 then Inr L
               else if f > lastn lt + 1 then Inr R
               else Inl AssertFailed) of
           Inl e \<Rightarrow> Inl e
         | Inr L \<Rightarrow>
             (case insert_tree lt (p @ [L]) f l g of
                Inl e \<Rightarrow> Inl e
              | Inr (found, lt', g') \<Rightarrow>
                  if \<not> found
                  then Inr (False, Node (first lt') (lastn rt) (covered lt' + covered rt) nd lt' rt, g')
                  else Inr (True, Node nf nl nc nd lt' rt, g'))
         | Inr R \<Rightarrow>
             (case insert_tree rt (p @ [R]) f l g of
                Inl e \<Rightarrow> Inl e
              | Inr (found, rt', g') \<Rightarrow>
                  if \<not> found
                  then Inr (False, Node (first lt) (lastn rt') (covered lt + covered rt') nd lt rt', g')
                  else Inr (True, Node nf nl nc nd lt rt', g'))))"
| "insert_tree Null p f l g = (if \<not> f \<le> l then Inl AssertFailed else Inl NullDeref)"
| "insert_tree (Node nf nl nc nd lt rt) p f l g =
     (if \<not> f \<le> l then Inl AssertFailed
      else if (lt = Null) \<noteq> (rt = Null) then Inl AssertFailed
      else if \<not> (lt = Null \<or> nf = first lt) then Inl AssertFailed
      else if \<not> (rt = Null \<or> nl = lastn rt) then Inl AssertFailed
      else
        (case (if (f = l \<and> (f = nf \<or> l = nl)) \<or> (lt = Null \<and> rt = Null \<and> f = nf \<and> l = nl)
               then Inr (True, Node nf nl nc nd lt rt, g)
               else if lt = Null \<and> rt = Null
               then insert_into_leaf (Node nf nl nc nd lt rt) p f l g
               else insert_into_internal (Node nf nl nc nd lt rt) p f l g) of
           Inl e \<Rightarrow> Inl e
         | Inr (found, n', g') \<Rightarrow>
             if found then Inr (True, n', g')
             else if left n' = Null \<and> right n' = Null
             then Inr (False, Node (first n') (lastn n') (lastn n' - first n' + 1) (depth n') Null Null, g')
             else Inr (False, Node (first (left n')) (lastn (right n'))
                                (covered (left n') + covered (right n')) (depth n')
                                (left n') (right n'), g')))"

fun lookup :: "node \<Rightarrow> uintmax \<Rightarrow> error + bool" where
  "lookup Null num = Inl NullDeref"
| "lookup (Node nf nl nc nd lt rt) num =
     (if lt = Null \<and> rt = Null then Inr (num \<ge> nf \<and> num \<le> nl)
      else if lt = Null then Inl NullDeref
      else if num \<ge> first lt \<and> num \<le> lastn lt then lookup lt num
      else if rt = Null then Inl NullDeref
      else if num \<ge> first rt \<and> num \<le> lastn rt then lookup rt num
      else Inr False)"

section \<open>Work queue\<close>

text \<open>
  The array \<^verbatim>\<open>queue\<close> and its two cursors.  The array is static, so all its cells
  start at zero.
\<close>

record workqueue =
  queue :: "uint \<Rightarrow> uintmax"
  qr :: uint
  qw :: uint

definition WORKQUEUE_SIZE :: uint where
  "WORKQUEUE_SIZE = push_bit 20 1"

definition WORKQUEUE_DEPTH :: "workqueue \<Rightarrow> uint" where
  "WORKQUEUE_DEPTH w = (qw w + WORKQUEUE_SIZE - qr w) mod WORKQUEUE_SIZE"

definition work_append :: "uintmax \<Rightarrow> workqueue \<Rightarrow> bool \<times> workqueue" where
  "work_append num w =
     (if qw w = qr w \<and> queue w (qw w) \<noteq> 0 then (False, w)
      else (True, w\<lparr>queue := (queue w)(qw w := num),
                     qw := (qw w + 1) mod WORKQUEUE_SIZE\<rparr>))"

definition work_fetch :: "workqueue \<Rightarrow> uintmax \<times> workqueue" where
  "work_fetch w =
     (if qr w = qw w \<and> queue w (qr w) = 0 then (0, w)
      else (queue w (qr w), w\<lparr>queue := (queue w)(qr w := 0),
                               qr := (qr w + 1) mod WORKQUEUE_SIZE\<rparr>))"

section \<open>Explorer\<close>

text \<open>
  All global variables of the program; \<open>rdepth\<close> is the static variable
  \<^verbatim>\<open>depth\<close> of \<^verbatim>\<open>collatz_r\<close>.  Printing (\<^verbatim>\<open>progress\<close>, \<^verbatim>\<open>debug\<close>,
  \<^verbatim>\<open>verbose\<close>) and the clock do not change them and are left out.
\<close>

record state =
  root :: node
  tv :: treevars
  wq :: workqueue
  stop :: uintmax
  maxrecurse :: uint
  rdepth :: uintmax

text \<open>
  \<^verbatim>\<open>collatz_r\<close>.  The recursion of the source has no bound that is visible in its
  text, so the model counts calls down from a fuel; \<open>None\<close> means that the fuel ran
  out.  The two early returns leave \<^verbatim>\<open>depth\<close> incremented, as the source does.
\<close>

fun collatz_r :: "nat \<Rightarrow> uintmax \<Rightarrow> state \<Rightarrow> (error + state) option" where
  "collatz_r 0 num s = None"
| "collatz_r (Suc k) num s =
     (let s1 = s\<lparr>rdepth := rdepth s + 1\<rparr>;
          s2 = (if rdepth s1 > ucast (maxrecurse s1)
                then s1\<lparr>maxrecurse := ucast (rdepth s1)\<rparr> else s1)
      in if num \<ge> stop s2 then Some (Inr s2)
         else
           (case insert_tree (root s2) [] num num (tv s2) of
              Inl e \<Rightarrow> Some (Inl e)
            | Inr (found, n', g') \<Rightarrow>
                (let s3 = s2\<lparr>root := n', tv := g'\<rparr>
                 in if found then Some (Inr s3)
                    else
                      (case collatz_r k (num * 2) s3 of
                         None \<Rightarrow> None
                       | Some (Inl e) \<Rightarrow> Some (Inl e)
                       | Some (Inr s4) \<Rightarrow>
                           (case (if (num - 1) mod 6 = 3
                                  then collatz_r k ((num - 1) div 3) s4
                                  else Some (Inr s4)) of
                              None \<Rightarrow> None
                            | Some (Inl e) \<Rightarrow> Some (Inl e)
                            | Some (Inr s5) \<Rightarrow>
                                Some (Inr (s5\<lparr>rdepth := rdepth s5 - 1\<rparr>)))))))"

text \<open>
  The body of the loop of \<^verbatim>\<open>collatz_i\<close>, for a fetched \<open>num\<close> that is not zero,
  and the loop itself, again with a fuel that counts iterations.
\<close>

definition collatz_i_body :: "uintmax \<Rightarrow> state \<Rightarrow> error + state" where
  "collatz_i_body num s =
     (if num \<ge> stop s then Inr s
      else
        (case insert_tree (root s) [] num num (tv s) of
           Inl e \<Rightarrow> Inl e
         | Inr (found, n', g') \<Rightarrow>
             (let s1 = s\<lparr>root := n', tv := g'\<rparr>
              in if found then Inr s1
                 else
                   (let w1 = snd (work_append (num * 2) (wq s1));
                        w2 = (if (num - 1) mod 6 = 3
                              then snd (work_append ((num - 1) div 3) w1) else w1)
                    in Inr (s1\<lparr>wq := w2\<rparr>)))))"

fun collatz_i :: "nat \<Rightarrow> state \<Rightarrow> (error + state) option" where
  "collatz_i 0 s = None"
| "collatz_i (Suc k) s =
     (case work_fetch (wq s) of
        (num, w) \<Rightarrow>
          if num = 0 then Some (Inr (s\<lparr>wq := w\<rparr>))
          else
            (case collatz_i_body num (s\<lparr>wq := w\<rparr>) of
               Inl e \<Rightarrow> Some (Inl e)
             | Inr s' \<Rightarrow> collatz_i k s'))"

text \<open>
  \<^verbatim>\<open>collatz\<close>: the initial values of the static variables, the seed \<open>[1, 2]\<close>
  and the chosen strategy (\<open>opt_i\<close>).  The ceiling \<^verbatim>\<open>stop\<close> is set by
  \<^verbatim>\<open>main\<close> before the call.
\<close>

definition init_treevars :: treevars where
  "init_treevars = \<lparr>proven = None, nodes = 0, maxnodes = 0, maxdepth = 0\<rparr>"

definition init_workqueue :: workqueue where
  "init_workqueue = \<lparr>queue = (\<lambda>_. 0), qr = 0, qw = 0\<rparr>"

definition seed :: "uintmax \<Rightarrow> state" where
  "seed st =
     (let (n, g) = create 0 1 2 [] init_treevars
      in \<lparr>root = n, tv = g, wq = init_workqueue, stop = st, maxrecurse = 0, rdepth = 0\<rparr>)"

definition collatz :: "nat \<Rightarrow> bool \<Rightarrow> uintmax \<Rightarrow> (error + state) option" where
  "collatz fuel opt_i st =
     (let s = seed st
      in if opt_i
         then collatz_i fuel (s\<lparr>wq := snd (work_append 4 (wq s))\<rparr>)
         else collatz_r fuel 4 s)"

text \<open>
  \<^verbatim>\<open>main\<close> accepts a \<^verbatim>\<open>log2max\<close> between 3 and 63 and sets the ceiling to
  \<open>2 ^ log2max\<close>; without the argument the ceiling is \<open>2 ^ 30\<close>.
\<close>

definition main_stop :: "nat option \<Rightarrow> error + uintmax" where
  "main_stop arg =
     (case arg of
        None \<Rightarrow> Inr (push_bit 30 1)
      | Some log2max \<Rightarrow>
          if log2max < 3 \<or> log2max > 63 then Inl AssertFailed
          else Inr (push_bit log2max 1))"

text \<open>\<^verbatim>\<open>fprintnodes\<close>: the leaves from left to right, each as its two bounds.\<close>

fun fprintnodes :: "node \<Rightarrow> (uintmax \<times> uintmax) list" where
  "fprintnodes Null = []"
| "fprintnodes (Node nf nl nc nd lt rt) =
     (if lt = Null \<and> rt = Null then [(nf, nl)] else [])
     @ (if lt \<noteq> Null then fprintnodes lt else [])
     @ (if rt \<noteq> Null then fprintnodes rt else [])"

section \<open>Notions used to state the properties\<close>

text \<open>A sequence of calls of \<^verbatim>\<open>insert\<close> on the root, one range after the other.\<close>

fun insert_seq :: "(uintmax \<times> uintmax) list \<Rightarrow> node \<Rightarrow> treevars \<Rightarrow> error + (node \<times> treevars)" where
  "insert_seq [] n g = Inr (n, g)"
| "insert_seq ((f, l) # rs) n g =
     (case insert_tree n [] f l g of
        Inl e \<Rightarrow> Inl e
      | Inr (found, n', g') \<Rightarrow> insert_seq rs n' g')"

text \<open>The integers that lie in one of the given ranges.\<close>

definition union_of :: "(uintmax \<times> uintmax) list \<Rightarrow> uintmax set" where
  "union_of rs = (\<Union>(f, l)\<in>set rs. {f..l})"

text \<open>The number of nodes that are allocated in a tree.\<close>

fun count_nodes :: "node \<Rightarrow> nat" where
  "count_nodes Null = 0"
| "count_nodes (Node nf nl nc nd lt rt) = Suc (count_nodes lt + count_nodes rt)"

text \<open>
  Invariants 1 to 4 of the data model, at every node of a tree: the children are both
  \<open>Null\<close> or both present; an internal node takes its bounds and its count from its
  children; a leaf counts its span; the left child ends before the right child starts,
  with a gap of at least one integer.
\<close>

fun node_inv :: "node \<Rightarrow> bool" where
  "node_inv Null = False"
| "node_inv (Node nf nl nc nd lt rt) =
     (((lt = Null) = (rt = Null)) \<and>
      (if lt = Null \<and> rt = Null then nc = nl - nf + 1
       else node_inv lt \<and> node_inv rt \<and>
            nf = first lt \<and> nl = lastn rt \<and> nc = covered lt + covered rt \<and>
            lastn lt < first rt \<and> unat (lastn lt) + 1 < unat (first rt)))"

text \<open>
  Invariant 5: \<^verbatim>\<open>proven\<close> points to a node of the tree whose \<^verbatim>\<open>first\<close> is 1.  The
  node it points to is moreover a leaf.
\<close>

definition proven_inv :: "node \<Rightarrow> treevars \<Rightarrow> bool" where
  "proven_inv n g =
     (case proven g of
        None \<Rightarrow> False
      | Some p \<Rightarrow>
          (case node_at n p of
             None \<Rightarrow> False
           | Some m \<Rightarrow> first m = 1 \<and> LEAF_NODE m))"

text \<open>
  The bounds of every node lie between 1 and \<open>2 ^ 64 - 2\<close> and are in order, so that
  neither \<^verbatim>\<open>first - 1\<close> nor \<^verbatim>\<open>last + 1\<close> wraps around.
\<close>

fun node_bounds :: "node \<Rightarrow> bool" where
  "node_bounds Null = True"
| "node_bounds (Node nf nl nc nd lt rt) =
     (0 < nf \<and> nf \<le> nl \<and> nl < - 1 \<and> node_bounds lt \<and> node_bounds rt)"

text \<open>The position of the leftmost leaf of a tree.\<close>

fun leftmost :: "node \<Rightarrow> ptr" where
  "leftmost Null = []"
| "leftmost (Node nf nl nc nd lt rt) = (if lt = Null then [] else L # leftmost lt)"

text \<open>
  \<open>wq_holds w xs\<close>: the queue \<open>w\<close> holds exactly the entries \<open>xs\<close>, the oldest
  first.  The entries are not zero, they sit in consecutive cells from the read cursor on
  (modulo the size), the write cursor sits behind them and all other cells are zero.
\<close>

definition wq_holds :: "workqueue \<Rightarrow> uintmax list \<Rightarrow> bool" where
  "wq_holds w xs =
     (length xs \<le> unat WORKQUEUE_SIZE \<and>
      unat (qr w) < unat WORKQUEUE_SIZE \<and>
      unat (qw w) = (unat (qr w) + length xs) mod unat WORKQUEUE_SIZE \<and>
      (\<forall>x\<in>set xs. x \<noteq> 0) \<and>
      (\<forall>k<unat WORKQUEUE_SIZE.
         queue w (of_nat ((unat (qr w) + k) mod unat WORKQUEUE_SIZE)) =
           (if k < length xs then xs ! k else 0)))"

text \<open>Several calls of \<^verbatim>\<open>work_append\<close> in a row.\<close>

fun work_append_all :: "uintmax list \<Rightarrow> workqueue \<Rightarrow> workqueue" where
  "work_append_all [] w = w"
| "work_append_all (v # vs) w = work_append_all vs (snd (work_append v w))"

text \<open>
  The states at the head of the loop of \<^verbatim>\<open>collatz_i\<close>: the state in which the loop
  is entered, and the state after each iteration whose fetch returned a number.
\<close>

inductive collatz_i_reach :: "state \<Rightarrow> state \<Rightarrow> bool" for s0 :: state where
  reach_start: "collatz_i_reach s0 s0"
| reach_step:
    "collatz_i_reach s0 s \<Longrightarrow> work_fetch (wq s) = (num, w) \<Longrightarrow> num \<noteq> 0 \<Longrightarrow>
     collatz_i_body num (s\<lparr>wq := w\<rparr>) = Inr s' \<Longrightarrow> collatz_i_reach s0 s'"

text \<open>
  The parts of one call of \<^verbatim>\<open>collatz_r\<close>, named so that a call can be followed
  step by step: the entry (\<^verbatim>\<open>++depth\<close> and \<^verbatim>\<open>maxrecurse\<close>), the exit
  (\<^verbatim>\<open>--depth\<close>), what follows the first recursive call and what follows
  \<^verbatim>\<open>insert\<close>.
\<close>

definition collatz_r_enter :: "state \<Rightarrow> state" where
  "collatz_r_enter s =
     (if rdepth s + 1 > ucast (maxrecurse s)
      then s\<lparr>rdepth := rdepth s + 1, maxrecurse := ucast (rdepth s + 1)\<rparr>
      else s\<lparr>rdepth := rdepth s + 1\<rparr>)"

definition collatz_r_leave :: "(error + state) option \<Rightarrow> (error + state) option" where
  "collatz_r_leave r =
     (case r of
        None \<Rightarrow> None
      | Some (Inl e) \<Rightarrow> Some (Inl e)
      | Some (Inr s) \<Rightarrow> Some (Inr (s\<lparr>rdepth := rdepth s - 1\<rparr>)))"

definition collatz_r_second ::
  "nat \<Rightarrow> uintmax \<Rightarrow> (error + state) option \<Rightarrow> (error + state) option" where
  "collatz_r_second k num r =
     (case r of
        None \<Rightarrow> None
      | Some (Inl e) \<Rightarrow> Some (Inl e)
      | Some (Inr s) \<Rightarrow>
          collatz_r_leave
            (if (num - 1) mod 6 = 3 then collatz_r k ((num - 1) div 3) s else Some (Inr s)))"

definition collatz_r_inserted ::
  "nat \<Rightarrow> uintmax \<Rightarrow> state \<Rightarrow> error + (bool \<times> node \<times> treevars) \<Rightarrow> (error + state) option" where
  "collatz_r_inserted k num s r =
     (case r of
        Inl e \<Rightarrow> Some (Inl e)
      | Inr (found, n', g') \<Rightarrow>
          if found then Some (Inr (s\<lparr>root := n', tv := g'\<rparr>))
          else collatz_r_second k num (collatz_r k (num * 2) (s\<lparr>root := n', tv := g'\<rparr>)))"

text \<open>What a finished run leaves behind: the tree, or nothing if the run failed.\<close>

definition final_root :: "(error + state) option \<Rightarrow> node" where
  "final_root r = (case r of Some (Inr s) \<Rightarrow> root s | _ \<Rightarrow> Null)"

text \<open>
  The state in which \<^verbatim>\<open>collatz\<close> enters \<^verbatim>\<open>collatz_i\<close>, one pass through the loop
  from a state at its head (for a fetch that returns a number and a body that fails no
  assertion), and the state of the run with ceiling 8 after its first fetch.
\<close>

definition start_i :: "uintmax \<Rightarrow> state" where
  "start_i st = (seed st)\<lparr>wq := snd (work_append 4 (wq (seed st)))\<rparr>"

definition iteration :: "state \<Rightarrow> state" where
  "iteration s =
     (case work_fetch (wq s) of
        (num, w) \<Rightarrow>
          (case collatz_i_body num (s\<lparr>wq := w\<rparr>) of
             Inl e \<Rightarrow> s
           | Inr s' \<Rightarrow> s'))"

definition fetched_8 :: state where
  "fetched_8 = (start_i 8)\<lparr>wq := snd (work_fetch (wq (start_i 8)))\<rparr>"

text \<open>
  The explorer with a record of what it inserts.  \<open>collatz_r_log\<close> and
  \<open>collatz_i_log\<close> do what \<open>collatz_r\<close> and \<open>collatz_i\<close> do and carry along the
  list of the numbers that were recorded, the latest first: a number is recorded when it
  passes the ceiling test and \<^verbatim>\<open>insert\<close> reports it as new.  The lemma
  \<open>collatz_log_erase\<close> below shows that dropping the list gives back the run of
  \<open>collatz\<close>.
\<close>

definition collatz_r_log_leave ::
  "(error + state \<times> uintmax list) option \<Rightarrow> (error + state \<times> uintmax list) option" where
  "collatz_r_log_leave r =
     (case r of
        None \<Rightarrow> None
      | Some (Inl e) \<Rightarrow> Some (Inl e)
      | Some (Inr (s, xs)) \<Rightarrow> Some (Inr (s\<lparr>rdepth := rdepth s - 1\<rparr>, xs)))"

fun collatz_r_log ::
  "nat \<Rightarrow> uintmax \<Rightarrow> state \<Rightarrow> uintmax list \<Rightarrow> (error + state \<times> uintmax list) option"
and collatz_r_log_inserted ::
  "nat \<Rightarrow> uintmax \<Rightarrow> state \<Rightarrow> uintmax list \<Rightarrow> error + (bool \<times> node \<times> treevars) \<Rightarrow>
   (error + state \<times> uintmax list) option"
and collatz_r_log_second ::
  "nat \<Rightarrow> uintmax \<Rightarrow> (error + state \<times> uintmax list) option \<Rightarrow>
   (error + state \<times> uintmax list) option"
where
  "collatz_r_log 0 num s xs = None"
| "collatz_r_log (Suc k) num s xs =
     (if num \<ge> stop s then Some (Inr (collatz_r_enter s, xs))
      else collatz_r_log_inserted k num (collatz_r_enter s) xs
             (insert_tree (root s) [] num num (tv s)))"
| "collatz_r_log_inserted k num s xs (Inl e) = Some (Inl e)"
| "collatz_r_log_inserted k num s xs (Inr (found, n', g')) =
     (if found then Some (Inr (s\<lparr>root := n', tv := g'\<rparr>, xs))
      else collatz_r_log_second k num
             (collatz_r_log k (num * 2) (s\<lparr>root := n', tv := g'\<rparr>) (num # xs)))"
| "collatz_r_log_second k num None = None"
| "collatz_r_log_second k num (Some (Inl e)) = Some (Inl e)"
| "collatz_r_log_second k num (Some (Inr (s, xs))) =
     collatz_r_log_leave
       (if (num - 1) mod 6 = 3 then collatz_r_log k ((num - 1) div 3) s xs
        else Some (Inr (s, xs)))"








text \<open>
  The single points 4, 8, 16, 5, 10, 20 and 3, in the order in which the recursive
  strategy records them when the ceiling is 32.
\<close>

definition points_32 :: "(uintmax \<times> uintmax) list" where
  "points_32 = [(4, 4), (8, 8), (16, 16), (5, 5), (10, 10), (20, 20), (3, 3)]"

section \<open>Following a run step by step\<close>

lemma collatz_r_Suc:
  "collatz_r (Suc k) num s =
     (if num \<ge> stop s then Some (Inr (collatz_r_enter s))
      else collatz_r_inserted k num (collatz_r_enter s)
             (insert_tree (root s) [] num num (tv s)))"
  by (auto simp: collatz_r_enter_def collatz_r_inserted_def collatz_r_second_def
      collatz_r_leave_def Let_def split: sum.splits option.splits)

lemma collatz_r_inserted_simps:
  "collatz_r_inserted k num s (Inl e) = Some (Inl e)"
  "collatz_r_inserted k num s (Inr (True, n', g')) = Some (Inr (s\<lparr>root := n', tv := g'\<rparr>))"
  "collatz_r_inserted k num s (Inr (False, n', g')) =
     collatz_r_second k num (collatz_r k (num * 2) (s\<lparr>root := n', tv := g'\<rparr>))"
  by (simp_all add: collatz_r_inserted_def)

lemma collatz_r_second_simps:
  "collatz_r_second k num None = None"
  "collatz_r_second k num (Some (Inl e)) = Some (Inl e)"
  "collatz_r_second k num (Some (Inr s)) =
     collatz_r_leave
       (if (num - 1) mod 6 = 3 then collatz_r k ((num - 1) div 3) s else Some (Inr s))"
  by (simp_all add: collatz_r_second_def)

lemma collatz_r_leave_simps:
  "collatz_r_leave None = None"
  "collatz_r_leave (Some (Inl e)) = Some (Inl e)"
  "collatz_r_leave (Some (Inr s)) = Some (Inr (s\<lparr>rdepth := rdepth s - 1\<rparr>))"
  by (simp_all add: collatz_r_leave_def)

lemmas [code] = collatz_r.simps(1) collatz_r_Suc
lemmas [code] = collatz_r_inserted_simps
lemmas [code] = collatz_r_second_simps
lemmas [code] = collatz_r_leave_simps

lemma collatz_i_numeral:
  "collatz_i (numeral v) s = collatz_i (Suc (pred_numeral v)) s"
  by (simp only: numeral_eq_Suc)

lemmas run_defs = collatz_def seed_def create_def init_treevars_def init_workqueue_def
  Let_def insert_into_leaf_def work_append_def work_fetch_def WORKQUEUE_SIZE_def
  collatz_i_body_def final_root_def

lemma final_rootD:
  "final_root r = Node nf nl nc nd lt rt \<Longrightarrow>
   \<exists>s. r = Some (Inr s) \<and> root s = Node nf nl nc nd lt rt"
  by (auto simp: final_root_def split: option.splits sum.splits)

lemma run_r_8:
  "final_root (collatz 2 False 8) =
     Node 1 4 3 0 (Node 1 2 2 1 Null Null) (Node 4 4 1 1 Null Null)"
  by code_simp

lemma run_i_8:
  "final_root (collatz 4 True 8) =
     Node 1 4 3 0 (Node 1 2 2 1 Null Null) (Node 4 4 1 1 Null Null)"
  by (simp add: run_defs collatz_i_numeral del: Suc_numeral)

lemma run_r_32: "final_root (collatz 9 False 32) = Node 1 20 20 0 Null Null"
  by code_simp

lemma run_r_64: "final_root (collatz 25 False 64) = Node 1 56 56 0 Null Null"
  by code_simp

lemma run_i_64: "fprintnodes (final_root (collatz 40 True 64)) = [(1, 32), (40, 40)]"
  by (simp add: run_defs collatz_i_numeral del: Suc_numeral)













lemma seq_32:
  "insert_seq points_32 (root (seed st)) (tv (seed st)) =
     Inr (Node 1 20 20 0 Null Null,
          \<lparr>proven = Some [], nodes = 12, maxnodes = 22, maxdepth = 5\<rparr>)"
  by (simp add: run_defs points_32_def)

lemma range_1_2: "{1..2::uintmax} = {1, 2}"
  by (auto; unat_arith)

section \<open>The explorer on small ceilings\<close>



text \<open>
  C2, as amended.  With ceiling 8 each of the two strategies ends normally; in the tree
  it leaves \<open>lookup\<close> answers true for 4 and false for 8 and for 16, since the ceiling
  is exclusive.
\<close>

theorem ceiling_8_run:
  "(\<exists>s. collatz 2 False 8 = Some (Inr s) \<and> lookup (root s) 4 = Inr True \<and>
        lookup (root s) 8 = Inr False \<and> lookup (root s) 16 = Inr False) \<and>
   (\<exists>s. collatz 4 True 8 = Some (Inr s) \<and> lookup (root s) 4 = Inr True \<and>
        lookup (root s) 8 = Inr False \<and> lookup (root s) 16 = Inr False)"
proof (intro conjI)
  from final_rootD [OF run_r_8] obtain s where
    "collatz 2 False 8 = Some (Inr s)" and
    "root s = Node 1 4 3 0 (Node 1 2 2 1 Null Null) (Node 4 4 1 1 Null Null)"
    by blast
  then show "\<exists>s. collatz 2 False 8 = Some (Inr s) \<and> lookup (root s) 4 = Inr True \<and>
      lookup (root s) 8 = Inr False \<and> lookup (root s) 16 = Inr False"
    by simp
next
  from final_rootD [OF run_i_8] obtain s where
    "collatz 4 True 8 = Some (Inr s)" and
    "root s = Node 1 4 3 0 (Node 1 2 2 1 Null Null) (Node 4 4 1 1 Null Null)"
    by blast
  then show "\<exists>s. collatz 4 True 8 = Some (Inr s) \<and> lookup (root s) 4 = Inr True \<and>
      lookup (root s) 8 = Inr False \<and> lookup (root s) 16 = Inr False"
    by simp
qed

text \<open>
  C2 as it is stated fails: after the run with ceiling 8, \<open>lookup\<close> does not answer
  true for 8.
\<close>

theorem ceiling_8_lookup_8:
  "lookup (final_root (collatz 2 False 8)) 8 \<noteq> Inr True \<and>
   lookup (final_root (collatz 4 True 8)) 8 \<noteq> Inr True"
  by (simp add: run_r_8 run_i_8)

text \<open>
  C4.  With ceiling 64 the two strategies leave different trees: the recursive one
  prints the single range \<open>[1, 56]\<close>, the iterative one the ranges \<open>[1, 32]\<close> and
  \<open>[40, 40]\<close>.
\<close>

theorem strategies_differ_at_64:
  "fprintnodes (final_root (collatz 25 False 64)) = [(1, 56)] \<and>
   fprintnodes (final_root (collatz 40 True 64)) = [(1, 32), (40, 40)]"
  by (simp add: run_r_64 run_i_64)

section \<open>Coalescing covers numbers that were never inserted\<close>

text \<open>
  C3.  From the seeded tree, the inserts of the single points 4, 8, 16, 5, 10, 20 and 3
  leave the single leaf \<open>[1, 20]\<close>, in which \<open>lookup\<close> answers true for 7; but 7 lies
  in none of the inserted ranges.
\<close>

theorem lookup_true_for_uninserted:
  "insert_seq points_32 (root (seed st)) (tv (seed st)) =
     Inr (Node 1 20 20 0 Null Null,
          \<lparr>proven = Some [], nodes = 12, maxnodes = 22, maxdepth = 5\<rparr>) \<and>
   lookup (Node 1 20 20 0 Null Null) 7 = Inr True \<and>
   7 \<notin> union_of ((1, 2) # points_32)"
  unfolding seq_32 by (simp add: union_of_def points_32_def)

text \<open>
  C8.  The recursive run with ceiling 32 ends with the root that the inserts of
  \<open>points_32\<close> build; its \<^verbatim>\<open>covered\<close> field is 20, but the seed and these points
  are only 9 integers.
\<close>

theorem covered_exceeds_inserted:
  "final_root (collatz 9 False 32) = Node 1 20 20 0 Null Null \<and>
   map_sum id fst (insert_seq points_32 (root (seed 32)) (tv (seed 32))) =
     Inr (final_root (collatz 9 False 32)) \<and>
   covered (final_root (collatz 9 False 32)) = 20 \<and>
   card (union_of ((1, 2) # points_32)) = 9"
  unfolding seq_32 run_r_32 by (simp add: union_of_def points_32_def range_1_2)

text \<open>
  C10.  Each call of \<^verbatim>\<open>create\<close> adds two to the counter \<^verbatim>\<open>nodes\<close>: after the seed
  the counter is 2 while the tree has one node.
\<close>

theorem nodes_counts_twice:
  "nodes (snd (create d f l p g)) = nodes g + 2 \<and>
   nodes (tv (seed st)) = 2 \<and> count_nodes (root (seed st)) = 1"
  by (simp add: create_def seed_def init_treevars_def Let_def)

section \<open>The work queue\<close>

lemma SZ_val: "unat WORKQUEUE_SIZE = 1048576"
  by (simp add: WORKQUEUE_SIZE_def)

lemma mod_add_inj:
  fixes a j k n :: nat
  assumes "j < n" "k < n" "(a + j) mod n = (a + k) mod n"
  shows "j = k"
proof (rule ccontr)
  assume "j \<noteq> k"
  then consider "j < k" | "k < j" by linarith
  then show False
  proof cases
    case 1
    with assms(3) have "n dvd (a + k) - (a + j)"
      using mod_eq_dvd_iff_nat [of "a + j" "a + k" n] by simp
    then have "n dvd k - j" by simp
    with 1 assms(2) show False by (auto dest!: dvd_imp_le)
  next
    case 2
    with assms(3) have "n dvd (a + j) - (a + k)"
      using mod_eq_dvd_iff_nat [of "a + k" "a + j" n] by simp
    then have "n dvd j - k" by simp
    with 2 assms(1) show False by (auto dest!: dvd_imp_le)
  qed
qed

lemma cursor_step:
  assumes "unat c < unat WORKQUEUE_SIZE"
  shows "unat ((c + 1) mod WORKQUEUE_SIZE) = (unat c + 1) mod unat WORKQUEUE_SIZE"
proof -
  have "unat c + unat (1::uint) < 2 ^ LENGTH(32)"
    using assms by (simp add: SZ_val)
  then have "unat (c + 1) = unat c + 1"
    by (simp add: unat_add_lem [THEN iffD1])
  then show ?thesis
    by (simp add: unat_mod)
qed

lemma cell_index:
  assumes "m < unat WORKQUEUE_SIZE"
  shows "((of_nat m :: uint) = c) = (m = unat c)"
proof -
  have "unat (of_nat m :: uint) = m"
    using assms by (simp add: unat_of_nat SZ_val)
  then show ?thesis
    by (auto simp: word_unat_eq_iff)
qed

lemma wq_holds_cell:
  "wq_holds w xs \<Longrightarrow> k < unat WORKQUEUE_SIZE \<Longrightarrow>
   queue w (of_nat ((unat (qr w) + k) mod unat WORKQUEUE_SIZE)) =
     (if k < length xs then xs ! k else 0)"
  by (simp add: wq_holds_def)

lemma wq_holds_read_cell:
  assumes "wq_holds w xs"
  shows "queue w (qr w) = (if xs = [] then 0 else hd xs)"
proof -
  from assms have r: "unat (qr w) < unat WORKQUEUE_SIZE"
    by (simp add: wq_holds_def)
  then have "0 < unat WORKQUEUE_SIZE" by simp
  from wq_holds_cell [OF assms this] r show ?thesis
    by (simp add: hd_conv_nth)
qed

lemma wq_holds_write_cell:
  assumes "wq_holds w xs" and "length xs < unat WORKQUEUE_SIZE"
  shows "queue w (qw w) = 0"
proof -
  from assms(1) have "unat (qw w) = (unat (qr w) + length xs) mod unat WORKQUEUE_SIZE"
    by (simp add: wq_holds_def)
  with wq_holds_cell [OF assms] show ?thesis
    by (metis less_irrefl of_nat_unat unsigned_word_eqI word_unat_eq_iff ucast_id)
qed

lemma wq_holds_init: "wq_holds init_workqueue []"
  by (simp add: wq_holds_def init_workqueue_def SZ_val)

lemma work_append_stores:
  assumes h: "wq_holds w xs" and len: "length xs < unat WORKQUEUE_SIZE" and v: "v \<noteq> 0"
  shows "work_append v w =
           (True, w\<lparr>queue := (queue w)(qw w := v), qw := (qw w + 1) mod WORKQUEUE_SIZE\<rparr>)"
    and "wq_holds (snd (work_append v w)) (xs @ [v])"
proof -
  let ?S = "unat WORKQUEUE_SIZE"
  let ?r = "unat (qr w)"
  let ?w' = "w\<lparr>queue := (queue w)(qw w := v), qw := (qw w + 1) mod WORKQUEUE_SIZE\<rparr>"
  from h have r: "?r < ?S" and qw: "unat (qw w) = (?r + length xs) mod ?S"
    and nz: "\<forall>x\<in>set xs. x \<noteq> 0"
    by (simp_all add: wq_holds_def)
  from wq_holds_write_cell [OF h len]
  show app: "work_append v w = (True, ?w')"
    by (simp add: work_append_def)
  have qw_lt: "unat (qw w) < ?S" using qw r by simp
  have cursor: "unat (qw ?w') = (?r + length (xs @ [v])) mod ?S"
    using cursor_step [OF qw_lt] qw by (simp add: mod_Suc_eq)
  have cells: "queue ?w' (of_nat ((?r + k) mod ?S)) =
      (if k < length (xs @ [v]) then (xs @ [v]) ! k else 0)" if k: "k < ?S" for k
  proof -
    have idx: "(of_nat ((?r + k) mod ?S) = qw w) = (k = length xs)"
    proof -
      have "(?r + k) mod ?S < ?S" using r by simp
      then have "(of_nat ((?r + k) mod ?S) = qw w) = ((?r + k) mod ?S = unat (qw w))"
        by (rule cell_index)
      also have "\<dots> = (k = length xs)"
        using mod_add_inj [OF k len, of ?r] qw by auto
      finally show ?thesis .
    qed
    show ?thesis
    proof (cases "k = length xs")
      case True
      with idx show ?thesis by simp
    next
      case False
      with idx wq_holds_cell [OF h k] show ?thesis
        by (auto simp: nth_append)
    qed
  qed
  from len r cursor cells nz v have "wq_holds ?w' (xs @ [v])"
    unfolding wq_holds_def by simp
  with app show "wq_holds (snd (work_append v w)) (xs @ [v])"
    by simp
qed

lemma work_append_full:
  assumes h: "wq_holds w xs" and len: "length xs = unat WORKQUEUE_SIZE"
  shows "work_append v w = (False, w)"
proof -
  from h len have "unat (qw w) = unat (qr w)"
    by (simp add: wq_holds_def)
  then have "qw w = qr w"
    by (simp add: word_unat_eq_iff)
  moreover from len have "xs \<noteq> []"
    by (auto simp: SZ_val)
  then have "hd xs \<in> set xs" by simp
  with h have "hd xs \<noteq> 0"
    by (simp add: wq_holds_def)
  with wq_holds_read_cell [OF h] \<open>xs \<noteq> []\<close> have "queue w (qr w) \<noteq> 0"
    by simp
  ultimately show ?thesis
    by (simp add: work_append_def)
qed

lemma work_fetch_empty:
  assumes h: "wq_holds w []"
  shows "work_fetch w = (0, w)"
proof -
  from h have "unat (qw w) = unat (qr w)"
    by (simp add: wq_holds_def)
  then have "qr w = qw w"
    by (simp add: word_unat_eq_iff)
  with wq_holds_read_cell [OF h] show ?thesis
    by (simp add: work_fetch_def)
qed

lemma work_fetch_oldest:
  assumes h: "wq_holds w (x # xs)"
  shows "work_fetch w =
           (x, w\<lparr>queue := (queue w)(qr w := 0), qr := (qr w + 1) mod WORKQUEUE_SIZE\<rparr>)"
    and "wq_holds (snd (work_fetch w)) xs"
proof -
  let ?S = "unat WORKQUEUE_SIZE"
  let ?r = "unat (qr w)"
  let ?w' = "w\<lparr>queue := (queue w)(qr w := 0), qr := (qr w + 1) mod WORKQUEUE_SIZE\<rparr>"
  from h have r: "?r < ?S" and qw: "unat (qw w) = (?r + Suc (length xs)) mod ?S"
    and nz: "\<forall>y\<in>set (x # xs). y \<noteq> 0" and len: "Suc (length xs) \<le> ?S"
    by (simp_all add: wq_holds_def)
  from nz have "x \<noteq> 0" by simp
  with wq_holds_read_cell [OF h]
  show fetch: "work_fetch w = (x, ?w')"
    by (simp add: work_fetch_def)
  have r': "unat (qr ?w') = (?r + 1) mod ?S"
    using cursor_step [OF r] by simp
  have r'_lt: "unat (qr ?w') < ?S" using r' r by simp
  have cursor: "unat (qw ?w') = (unat (qr ?w') + length xs) mod ?S"
    using qw r' by (simp add: mod_add_left_eq)
  have cells: "queue ?w' (of_nat ((unat (qr ?w') + k) mod ?S)) =
      (if k < length xs then xs ! k else 0)" if k: "k < ?S" for k
  proof -
    have shift: "(unat (qr ?w') + k) mod ?S = (?r + Suc k) mod ?S"
      using r' by (simp add: mod_add_left_eq)
    show ?thesis
    proof (cases "Suc k < ?S")
      case True
      have "(?r + Suc k) mod ?S < ?S" using r by simp
      then have "(of_nat ((?r + Suc k) mod ?S) = qr w) = ((?r + Suc k) mod ?S = ?r)"
        by (rule cell_index)
      moreover have "(?r + Suc k) mod ?S \<noteq> ?r"
      proof
        assume "(?r + Suc k) mod ?S = ?r"
        with r have "(?r + Suc k) mod ?S = (?r + 0) mod ?S" by simp
        from mod_add_inj [OF True _ this] r show False by simp
      qed
      ultimately have "of_nat ((?r + Suc k) mod ?S) \<noteq> qr w" by simp
      with wq_holds_cell [OF h True] shift show ?thesis
        by simp
    next
      case False
      with k have eq: "Suc k = ?S" by simp
      then have "(?r + Suc k) mod ?S = ?r" using r by simp
      moreover from eq len have "\<not> k < length xs" by simp
      ultimately show ?thesis using shift by simp
    qed
  qed
  from len r'_lt cursor cells nz have "wq_holds ?w' xs"
    unfolding wq_holds_def by simp
  with fetch show "wq_holds (snd (work_fetch w)) xs"
    by simp
qed

lemma work_append_all_holds:
  "wq_holds w xs \<Longrightarrow> length xs + length vs \<le> unat WORKQUEUE_SIZE \<Longrightarrow>
   \<forall>x\<in>set vs. x \<noteq> 0 \<Longrightarrow> wq_holds (work_append_all vs w) (xs @ vs)"
proof (induction vs arbitrary: w xs)
  case Nil
  then show ?case by simp
next
  case (Cons v vs)
  from Cons.prems have "wq_holds (snd (work_append v w)) (xs @ [v])"
    by (intro work_append_stores(2)) simp_all
  from Cons.IH [OF this] Cons.prems show ?case
    by simp
qed

text \<open>
  C7.  Let the queue hold the entries \<open>xs\<close>.  If it is full, \<open>work_append\<close> returns
  false and changes nothing; otherwise it returns true, stores the number in the cell at
  the write cursor and advances that cursor modulo the size, so that the queue holds
  \<open>xs @ [v]\<close> (for a number that is not the sentinel).  If the queue is empty,
  \<open>work_fetch\<close> returns the sentinel 0; otherwise it returns the oldest entry, clears
  its cell and advances the read cursor modulo the size, so that the queue holds the
  remaining entries.  On the fresh queue, appending 4 and fetching yields 4, and
  fetching from the fresh queue yields 0; after appending as many numbers as the queue
  has cells, the queue holds them all and one more \<open>work_append\<close> returns false and
  changes nothing.
\<close>

theorem work_queue_fifo:
  assumes "wq_holds w xs"
  shows "(length xs = unat WORKQUEUE_SIZE \<longrightarrow> work_append v w = (False, w)) \<and>
     (length xs < unat WORKQUEUE_SIZE \<longrightarrow>
        work_append v w =
          (True, w\<lparr>queue := (queue w)(qw w := v), qw := (qw w + 1) mod WORKQUEUE_SIZE\<rparr>) \<and>
        (v \<noteq> 0 \<longrightarrow> wq_holds (snd (work_append v w)) (xs @ [v]))) \<and>
     (xs = [] \<longrightarrow> work_fetch w = (0, w)) \<and>
     (xs \<noteq> [] \<longrightarrow>
        work_fetch w =
          (hd xs, w\<lparr>queue := (queue w)(qr w := 0), qr := (qr w + 1) mod WORKQUEUE_SIZE\<rparr>) \<and>
        wq_holds (snd (work_fetch w)) (tl xs)) \<and>
     wq_holds init_workqueue [] \<and>
     fst (work_fetch (snd (work_append 4 init_workqueue))) = 4 \<and>
     work_fetch init_workqueue = (0, init_workqueue) \<and>
     (length vs = unat WORKQUEUE_SIZE \<and> 0 \<notin> set vs \<longrightarrow>
        wq_holds (work_append_all vs init_workqueue) vs \<and>
        work_append v (work_append_all vs init_workqueue) =
          (False, work_append_all vs init_workqueue))"
proof (intro conjI impI)
  assume "length xs = unat WORKQUEUE_SIZE"
  with assms show "work_append v w = (False, w)"
    by (rule work_append_full)
next
  assume len: "length xs < unat WORKQUEUE_SIZE"
  from wq_holds_write_cell [OF assms len]
  show "work_append v w =
      (True, w\<lparr>queue := (queue w)(qw w := v), qw := (qw w + 1) mod WORKQUEUE_SIZE\<rparr>)"
    by (simp add: work_append_def)
  assume "v \<noteq> 0"
  with assms len show "wq_holds (snd (work_append v w)) (xs @ [v])"
    by (rule work_append_stores(2))
next
  assume "xs = []"
  with assms show "work_fetch w = (0, w)"
    by (simp add: work_fetch_empty)
next
  assume "xs \<noteq> []"
  then obtain y ys where xs: "xs = y # ys"
    by (cases xs) auto
  with assms have h: "wq_holds w (y # ys)" by simp
  from work_fetch_oldest(1) [OF h] xs
  show "work_fetch w =
      (hd xs, w\<lparr>queue := (queue w)(qr w := 0), qr := (qr w + 1) mod WORKQUEUE_SIZE\<rparr>)"
    by simp
  from work_fetch_oldest(2) [OF h] xs
  show "wq_holds (snd (work_fetch w)) (tl xs)"
    by simp
next
  show "wq_holds init_workqueue []"
    by (rule wq_holds_init)
next
  have "wq_holds (snd (work_append 4 init_workqueue)) ([] @ [4])"
    by (rule work_append_stores(2) [OF wq_holds_init]) (simp_all add: SZ_val)
  then have "wq_holds (snd (work_append 4 init_workqueue)) [4]"
    by simp
  from work_fetch_oldest(1) [OF this]
  show "fst (work_fetch (snd (work_append 4 init_workqueue))) = 4"
    by simp
next
  show "work_fetch init_workqueue = (0, init_workqueue)"
    by (rule work_fetch_empty [OF wq_holds_init])
next
  assume vs: "length vs = unat WORKQUEUE_SIZE \<and> 0 \<notin> set vs"
  then have "\<forall>x\<in>set vs. x \<noteq> 0" by auto
  with work_append_all_holds [OF wq_holds_init, of vs] vs
  show full: "wq_holds (work_append_all vs init_workqueue) vs"
    by simp
  from vs have "length vs = unat WORKQUEUE_SIZE" by simp
  from work_append_full [OF full this]
  show "work_append v (work_append_all vs init_workqueue) =
      (False, work_append_all vs init_workqueue)" .
qed

theorem work_queue_fifo_witness:
  "wq_holds init_workqueue [] \<and>
   work_append 4 init_workqueue =
     (True, init_workqueue\<lparr>queue := (queue init_workqueue)(qw init_workqueue := 4),
                           qw := (qw init_workqueue + 1) mod WORKQUEUE_SIZE\<rparr>) \<and>
   wq_holds (snd (work_append 4 init_workqueue)) [4] \<and>
   work_fetch init_workqueue = (0, init_workqueue) \<and>
   work_fetch (snd (work_append 4 init_workqueue)) =
     (4, (snd (work_append 4 init_workqueue))
           \<lparr>queue := (queue (snd (work_append 4 init_workqueue)))
                       (qr (snd (work_append 4 init_workqueue)) := 0),
            qr := (qr (snd (work_append 4 init_workqueue)) + 1) mod WORKQUEUE_SIZE\<rparr>) \<and>
   wq_holds (snd (work_fetch (snd (work_append 4 init_workqueue)))) [] \<and>
   wq_holds \<lparr>queue = (\<lambda>_. 7), qr = 0, qw = 0\<rparr> (replicate (unat WORKQUEUE_SIZE) 7) \<and>
   work_append 9 \<lparr>queue = (\<lambda>_. 7), qr = 0, qw = 0\<rparr> = (False, \<lparr>queue = (\<lambda>_. 7), qr = 0, qw = 0\<rparr>) \<and>
   wq_holds (work_append_all (replicate (unat WORKQUEUE_SIZE) 7) init_workqueue)
     (replicate (unat WORKQUEUE_SIZE) 7)"
proof -
  have init: "wq_holds init_workqueue []"
    by (simp add: wq_holds_def init_workqueue_def SZ_val)
  have one: "wq_holds (snd (work_append 4 init_workqueue)) [4]"
    using work_queue_fifo [OF init, of 4 "[]"] by (auto simp: SZ_val)
  have full: "wq_holds \<lparr>queue = (\<lambda>_. 7), qr = 0, qw = 0\<rparr> (replicate (unat WORKQUEUE_SIZE) 7)"
    by (simp add: wq_holds_def SZ_val)
  show ?thesis
    using work_queue_fifo [OF init, of 4 "replicate (unat WORKQUEUE_SIZE) 7"]
      work_queue_fifo [OF one, of 4 "[]"] work_queue_fifo [OF full, of 9 "[]"] full one
    by (auto simp: SZ_val)
qed

section \<open>The queue during the iterative run\<close>

lemma main_stop_bound:
  assumes "main_stop arg = Inr st"
  shows "unat st \<le> 2 ^ 63"
proof (cases arg)
  case None
  with assms show ?thesis by (auto simp: main_stop_def)
next
  case (Some n)
  with assms have n: "n \<le> 63" and st: "st = push_bit n 1"
    by (auto simp: main_stop_def split: if_splits)
  from n have "(2::nat) ^ n < 2 ^ 64"
    by (intro power_strict_increasing) simp_all
  moreover have "unat (of_nat (2 ^ n) :: uintmax) = 2 ^ n mod 2 ^ LENGTH(64)"
    by (rule unat_of_nat)
  ultimately have "unat st = 2 ^ n"
    by (simp add: st push_bit_eq_mult)
  also from n have "\<dots> \<le> (2::nat) ^ 63"
    by (intro power_increasing) simp_all
  finally show ?thesis .
qed

lemma doubling_nonzero:
  fixes num st :: uintmax
  assumes "num \<noteq> 0" "num < st" "unat st \<le> 2 ^ 63"
  shows "num * 2 \<noteq> 0" "unat (num * 2) = 2 * unat num"
proof -
  from assms have "unat num < 2 ^ 63"
    by (simp add: word_less_nat_alt)
  then have "unat num * unat (2::uintmax) < 2 ^ LENGTH(64)"
    by simp
  then have "unat (num * 2) = unat num * unat (2::uintmax)"
    by (simp only: unat_mult_lem)
  then show u: "unat (num * 2) = 2 * unat num" by simp
  from assms(1) have "unat num \<noteq> 0"
    by (simp add: unat_eq_0)
  with u have "unat (num * 2) \<noteq> 0" by simp
  then show "num * 2 \<noteq> 0" by (auto simp: unat_eq_0)
qed

lemma third_nonzero:
  fixes m :: uintmax
  assumes "m mod 6 = 3"
  shows "m div 3 \<noteq> 0"
proof -
  from assms have "unat (m mod 6) = 3" by simp
  then have "unat m mod 6 = 3" by (simp add: unat_mod)
  then have "3 \<le> unat m" by presburger
  then have "unat m div 3 \<noteq> 0" by simp
  then have "unat (m div 3) \<noteq> 0" by (simp add: unat_div)
  then show ?thesis by (auto simp: unat_eq_0)
qed

lemma work_append_keeps:
  assumes "wq_holds w xs" "v \<noteq> 0"
  shows "\<exists>ys. wq_holds (snd (work_append v w)) ys"
proof (cases "length xs < unat WORKQUEUE_SIZE")
  case True
  from work_append_stores(2) [OF assms(1) True assms(2)] show ?thesis ..
next
  case False
  with assms(1) have "length xs = unat WORKQUEUE_SIZE"
    by (simp add: wq_holds_def)
  from work_append_full [OF assms(1) this, of v] assms(1) show ?thesis
    by auto
qed

lemma collatz_i_body_keeps:
  assumes h: "wq_holds (wq s) xs" and num: "num \<noteq> 0" and st: "unat (stop s) \<le> 2 ^ 63"
    and body: "collatz_i_body num s = Inr s'"
  shows "stop s' = stop s \<and> (\<exists>ys. wq_holds (wq s') ys)"
proof (cases "num \<ge> stop s")
  case True
  with body h show ?thesis by (auto simp: collatz_i_body_def)
next
  case False
  then have lt: "num < stop s" by simp
  from body False obtain found n' g' where
    ins: "insert_tree (root s) [] num num (tv s) = Inr (found, n', g')"
    by (auto simp: collatz_i_body_def split: sum.splits)
  show ?thesis
  proof (cases found)
    case True
    with body False ins h show ?thesis by (auto simp: collatz_i_body_def)
  next
    case nf: False
    from work_append_keeps [OF h doubling_nonzero(1) [OF num lt st]]
    obtain ys where ys: "wq_holds (snd (work_append (num * 2) (wq s))) ys" ..
    show ?thesis
    proof (cases "(num - 1) mod 6 = 3")
      case True
      from work_append_keeps [OF ys third_nonzero [OF True]]
      obtain zs where
        "wq_holds (snd (work_append ((num - 1) div 3) (snd (work_append (num * 2) (wq s))))) zs" ..
      with body False ins nf True show ?thesis
        by (auto simp: collatz_i_body_def Let_def)
    next
      case no: False
      with body False ins nf ys show ?thesis
        by (auto simp: collatz_i_body_def Let_def)
    qed
  qed
qed

lemma start_i_holds: "wq_holds (wq (start_i st)) [4] \<and> stop (start_i st) = st"
proof -
  have "wq_holds (snd (work_append 4 init_workqueue)) ([] @ [4])"
    by (rule work_append_stores(2) [OF wq_holds_init]) (simp_all add: SZ_val)
  then show ?thesis
    by (simp add: start_i_def seed_def create_def Let_def init_treevars_def)
qed

lemma word_ge_1: "(1 \<le> (x::uintmax)) = (x \<noteq> 0)"
  by (simp add: word_le_nat_alt Suc_le_eq unat_gt_0)

text \<open>
  C9, as amended.  Let the ceiling be one that \<open>main\<close> sets.  Whenever the loop of the
  iterative strategy is at its head, the queue holds entries that are all at least 1 (and
  all its other cells are zero): no entry equals the sentinel 0.
\<close>

theorem queue_entries_nonzero:
  assumes "main_stop arg = Inr st" and "collatz_i_reach (start_i st) s"
  shows "stop s = st \<and> (\<exists>xs. wq_holds (wq s) xs \<and> (\<forall>x\<in>set xs. 1 \<le> x))"
proof -
  from assms(2) have "stop s = st \<and> (\<exists>xs. wq_holds (wq s) xs)"
  proof (induction rule: collatz_i_reach.induct)
    case reach_start
    from start_i_holds [of st] show ?case by blast
  next
    case (reach_step s num w s')
    then obtain xs where st: "stop s = st" and h: "wq_holds (wq s) xs"
      by blast
    from reach_step.hyps(2,3) work_fetch_empty h have "xs \<noteq> []"
      by (cases xs) auto
    then obtain y ys where xs: "xs = y # ys" by (cases xs) auto
    from work_fetch_oldest(2) [of "wq s" y ys] h xs reach_step.hyps(2)
    have ys: "wq_holds (wq (s\<lparr>wq := w\<rparr>)) ys" by simp
    from st main_stop_bound [OF assms(1)]
    have "unat (stop (s\<lparr>wq := w\<rparr>)) \<le> 2 ^ 63" by simp
    from collatz_i_body_keeps [OF ys reach_step.hyps(3) this reach_step.hyps(4)]
    have "stop s' = stop (s\<lparr>wq := w\<rparr>) \<and> (\<exists>zs. wq_holds (wq s') zs)" .
    with st show ?case by simp
  qed
  then obtain xs where "stop s = st" and h: "wq_holds (wq s) xs" by blast
  moreover from h have "\<forall>x\<in>set xs. 1 \<le> x"
    by (simp add: wq_holds_def word_ge_1)
  ultimately show ?thesis by blast
qed

lemma main_stop_3: "main_stop (Some 3) = Inr 8"
  by (simp add: main_stop_def)

lemma fetched_8_holds: "wq_holds (wq fetched_8) []"
proof -
  from start_i_holds [of 8] have "wq_holds (wq (start_i 8)) [4]" by simp
  from work_fetch_oldest(2) [OF this] show ?thesis
    by (simp add: fetched_8_def)
qed

lemma fetched_8_insert:
  "insert_tree (root fetched_8) [] 4 4 (tv fetched_8) =
     Inr (False, Node 1 4 3 0 (Node 1 2 2 1 Null Null) (Node 4 4 1 1 Null Null),
          \<lparr>proven = Some [L], nodes = 6, maxnodes = 6, maxdepth = 1\<rparr>)"
  by (simp add: fetched_8_def start_i_def run_defs)

lemma fetched_8_stop: "stop fetched_8 = 8"
  by (simp add: fetched_8_def start_i_def seed_def create_def Let_def)

lemma first_fetch_8: "work_fetch (wq (start_i 8)) = (4, wq fetched_8)"
proof -
  from start_i_holds [of 8] have "wq_holds (wq (start_i 8)) [4]" by simp
  from work_fetch_oldest(1) [OF this] show ?thesis
    by (simp add: fetched_8_def)
qed

lemma fetched_8_back: "(start_i 8)\<lparr>wq := wq fetched_8\<rparr> = fetched_8"
  by (simp add: fetched_8_def)

lemma body_8:
  "collatz_i_body 4 fetched_8 =
     Inr (fetched_8\<lparr>root := Node 1 4 3 0 (Node 1 2 2 1 Null Null) (Node 4 4 1 1 Null Null),
                    tv := \<lparr>proven = Some [L], nodes = 6, maxnodes = 6, maxdepth = 1\<rparr>,
                    wq := snd (work_append 1 (snd (work_append 8 (wq fetched_8))))\<rparr>)"
  by (simp add: collatz_i_body_def fetched_8_insert fetched_8_stop Let_def)

lemma iteration_8:
  "iteration (start_i 8) =
     fetched_8\<lparr>root := Node 1 4 3 0 (Node 1 2 2 1 Null Null) (Node 4 4 1 1 Null Null),
               tv := \<lparr>proven = Some [L], nodes = 6, maxnodes = 6, maxdepth = 1\<rparr>,
               wq := snd (work_append 1 (snd (work_append 8 (wq fetched_8))))\<rparr>"
  by (simp add: iteration_def first_fetch_8 fetched_8_back body_8)

lemma reach_first_8: "collatz_i_reach (start_i 8) (iteration (start_i 8))"
proof -
  have "collatz_i_body 4 ((start_i 8)\<lparr>wq := wq fetched_8\<rparr>) = Inr (iteration (start_i 8))"
    by (simp add: fetched_8_back body_8 iteration_8)
  from reach_step [OF reach_start first_fetch_8 _ this] show ?thesis
    by simp
qed

lemma queue_after_first_8: "wq_holds (wq (iteration (start_i 8))) [8, 1]"
proof -
  have 1: "wq_holds (snd (work_append 8 (wq fetched_8))) ([] @ [8])"
    by (rule work_append_stores(2) [OF fetched_8_holds]) (simp_all add: SZ_val)
  have 2: "wq_holds (snd (work_append 1 (snd (work_append 8 (wq fetched_8))))) ([8] @ [1])"
    by (rule work_append_stores(2)) (use 1 in \<open>simp_all add: SZ_val\<close>)
  then show ?thesis
    by (simp add: iteration_8)
qed

text \<open>
  C9 as it is stated fails: with ceiling 8 (\<open>log2max = 3\<close>) the first iteration of the
  loop leaves the entries 8 and 1 in the queue, and 1 is less than 4.
\<close>

theorem queue_holds_one_at_8:
  "main_stop (Some 3) = Inr 8 \<and>
   collatz_i_reach (start_i 8) (iteration (start_i 8)) \<and>
   wq_holds (wq (iteration (start_i 8))) [8, 1] \<and> (1::uintmax) < 4"
  by (simp add: main_stop_3 reach_first_8 queue_after_first_8)

theorem queue_entries_nonzero_witness:
  "main_stop (Some 3) = Inr 8 \<and>
   collatz_i_reach (start_i 8) (iteration (start_i 8)) \<and>
   stop (iteration (start_i 8)) = 8 \<and>
   (\<exists>xs. wq_holds (wq (iteration (start_i 8))) xs \<and> (\<forall>x\<in>set xs. 1 \<le> x))"
  using queue_entries_nonzero [OF main_stop_3 reach_first_8] main_stop_3 reach_first_8
  by simp

lemma collatz_start_i: "collatz fuel True st = collatz_i fuel (start_i st)"
  by (simp add: collatz_def start_i_def Let_def)

lemma collatz_i_reach_trans:
  "collatz_i_reach s1 t \<Longrightarrow> collatz_i_reach s0 s1 \<Longrightarrow> collatz_i_reach s0 t"
  by (induction rule: collatz_i_reach.induct) (auto intro: collatz_i_reach.intros)

lemma collatz_i_final_reach:
  "collatz_i k s = Some (Inr s') \<Longrightarrow>
   \<exists>t. collatz_i_reach s t \<and> work_fetch (wq t) = (0, wq s') \<and> s' = t\<lparr>wq := wq s'\<rparr>"
proof (induction k arbitrary: s)
  case 0
  then show ?case by simp
next
  case (Suc k)
  obtain num w where f: "work_fetch (wq s) = (num, w)" by (cases "work_fetch (wq s)")
  show ?case
  proof (cases "num = 0")
    case True
    with Suc.prems f have "s' = s\<lparr>wq := w\<rparr>" by simp
    with f True show ?thesis
      by (auto intro!: exI [of _ s] reach_start)
  next
    case False
    with Suc.prems f obtain s1 where b: "collatz_i_body num (s\<lparr>wq := w\<rparr>) = Inr s1"
      and r: "collatz_i k s1 = Some (Inr s')"
      by (auto split: sum.splits)
    from Suc.IH [OF r] obtain t where t: "collatz_i_reach s1 t"
      "work_fetch (wq t) = (0, wq s')" "s' = t\<lparr>wq := wq s'\<rparr>" by blast
    from reach_step [OF reach_start f False b] have "collatz_i_reach s s1" .
    from collatz_i_reach_trans [OF t(1) this] t(2,3) show ?thesis by blast
  qed
qed

lemma mod_6_is_3: "((m::nat) mod 6 = 3) = (3 dvd m \<and> odd (m div 3))"
  by presburger

lemma recorded_arith:
  fixes num :: uintmax
  assumes "num \<noteq> 0"
  shows "((num - 1) mod 6 = 3) = (3 dvd (unat num - 1) \<and> odd ((unat num - 1) div 3))"
    and "unat ((num - 1) div 3) = (unat num - 1) div 3"
proof -
  from assms have m: "unat (num - 1) = unat num - 1"
    by (rule unat_minus_one)
  have six: "unat (6::uintmax) = 6" and three: "unat (3::uintmax) = 3"
    by simp_all
  have "((num - 1) mod 6 = 3) = (unat ((num - 1) mod 6) = unat (3::uintmax))"
    by (rule word_unat_eq_iff)
  also have "\<dots> = (unat (num - 1) mod 6 = 3)"
    by (simp only: unat_mod six three)
  also have "\<dots> = (3 dvd unat (num - 1) \<and> odd (unat (num - 1) div 3))"
    by (rule mod_6_is_3)
  finally show "((num - 1) mod 6 = 3) = (3 dvd (unat num - 1) \<and> odd ((unat num - 1) div 3))"
    by (simp only: m)
  have "unat ((num - 1) div 3) = unat (num - 1) div 3"
    by (simp only: unat_div three)
  then show "unat ((num - 1) div 3) = (unat num - 1) div 3"
    by (simp only: m)
qed

text \<open>
  C6.  Let \<open>num\<close> be newly recorded: it is below the ceiling and \<^verbatim>\<open>insert\<close> reports
  it as new.  Then the iterative strategy appends to the queue \<open>2 * num\<close> and, exactly
  when \<open>(num - 1) mod 6 = 3\<close>, after it \<open>(num - 1) div 3\<close>, and nothing else; the
  recursive strategy calls itself for \<open>2 * num\<close> and then, exactly when the test holds,
  for \<open>(num - 1) div 3\<close>.  The product does not wrap around, and the test holds if and
  only if \<open>num - 1\<close> is a multiple of 3 whose third is odd.
\<close>

theorem successors_of_recorded:
  assumes ins: "insert_tree (root s) [] num num (tv s) = Inr (False, n', g')"
    and num: "num \<noteq> 0" and lt: "num < stop s" and st: "unat (stop s) \<le> 2 ^ 63"
    and h: "wq_holds (wq s) xs" and room: "length xs + 2 \<le> unat WORKQUEUE_SIZE"
  shows "(\<exists>s'. collatz_i_body num s = Inr s' \<and> root s' = n' \<and> tv s' = g' \<and>
            wq_holds (wq s')
              (xs @ [num * 2] @ (if (num - 1) mod 6 = 3 then [(num - 1) div 3] else []))) \<and>
     collatz_r (Suc k) num s =
       (case collatz_r k (num * 2) ((collatz_r_enter s)\<lparr>root := n', tv := g'\<rparr>) of
          None \<Rightarrow> None
        | Some (Inl e) \<Rightarrow> Some (Inl e)
        | Some (Inr s2) \<Rightarrow>
            collatz_r_leave
              (if (num - 1) mod 6 = 3 then collatz_r k ((num - 1) div 3) s2
               else Some (Inr s2))) \<and>
     unat (num * 2) = 2 * unat num \<and>
     ((num - 1) mod 6 = 3) = (3 dvd (unat num - 1) \<and> odd ((unat num - 1) div 3)) \<and>
     unat ((num - 1) div 3) = (unat num - 1) div 3"
proof (intro conjI)
  from lt have nge: "\<not> stop s \<le> num"
    by simp
  from room have len1: "length xs < unat WORKQUEUE_SIZE"
    and len2: "length (xs @ [num * 2]) < unat WORKQUEUE_SIZE"
    by simp_all
  have a1: "wq_holds (snd (work_append (num * 2) (wq s))) (xs @ [num * 2])"
    by (rule work_append_stores(2) [OF h len1 doubling_nonzero(1) [OF num lt st]])
  show "\<exists>s'. collatz_i_body num s = Inr s' \<and> root s' = n' \<and> tv s' = g' \<and>
      wq_holds (wq s')
        (xs @ [num * 2] @ (if (num - 1) mod 6 = 3 then [(num - 1) div 3] else []))"
  proof (cases "(num - 1) mod 6 = 3")
    case True
    have "wq_holds (snd (work_append ((num - 1) div 3) (snd (work_append (num * 2) (wq s)))))
        ((xs @ [num * 2]) @ [(num - 1) div 3])"
      by (rule work_append_stores(2) [OF a1 len2 third_nonzero [OF True]])
    with ins nge True show ?thesis
      by (simp add: collatz_i_body_def Let_def)
  next
    case False
    with ins nge a1 show ?thesis
      by (simp add: collatz_i_body_def Let_def)
  qed
  from ins nge show "collatz_r (Suc k) num s =
      (case collatz_r k (num * 2) ((collatz_r_enter s)\<lparr>root := n', tv := g'\<rparr>) of
         None \<Rightarrow> None
       | Some (Inl e) \<Rightarrow> Some (Inl e)
       | Some (Inr s2) \<Rightarrow>
           collatz_r_leave
             (if (num - 1) mod 6 = 3 then collatz_r k ((num - 1) div 3) s2
              else Some (Inr s2)))"
    by (simp add: collatz_r_Suc collatz_r_inserted_simps collatz_r_second_def
        del: collatz_r.simps)
  show "unat (num * 2) = 2 * unat num"
    by (rule doubling_nonzero(2) [OF num lt st])
  show "((num - 1) mod 6 = 3) = (3 dvd (unat num - 1) \<and> odd ((unat num - 1) div 3))"
    by (rule recorded_arith(1) [OF num])
  show "unat ((num - 1) div 3) = (unat num - 1) div 3"
    by (rule recorded_arith(2) [OF num])
qed

theorem successors_of_recorded_witness:
  "insert_tree (root fetched_8) [] 4 4 (tv fetched_8) =
     Inr (False, Node 1 4 3 0 (Node 1 2 2 1 Null Null) (Node 4 4 1 1 Null Null),
          \<lparr>proven = Some [L], nodes = 6, maxnodes = 6, maxdepth = 1\<rparr>) \<and>
   (4::uintmax) < stop fetched_8 \<and> wq_holds (wq fetched_8) [] \<and>
   (\<exists>s'. collatz_i_body 4 fetched_8 = Inr s' \<and> wq_holds (wq s') [8, 1]) \<and>
   unat ((4::uintmax) * 2) = 8 \<and> ((4::uintmax) - 1) mod 6 = 3"
proof -
  have st: "unat (stop fetched_8) \<le> 2 ^ 63" and lt: "(4::uintmax) < stop fetched_8"
    by (simp_all add: fetched_8_stop)
  have room: "length ([]::uintmax list) + 2 \<le> unat WORKQUEUE_SIZE"
    by (simp add: SZ_val)
  from successors_of_recorded [OF fetched_8_insert _ lt st fetched_8_holds room, of 0]
  have "\<exists>s'. collatz_i_body 4 fetched_8 = Inr s' \<and> wq_holds (wq s') [8, 1]"
    and "unat ((4::uintmax) * 2) = 8"
    by (auto simp del: collatz_r.simps)
  with fetched_8_insert lt fetched_8_holds show ?thesis
    by simp
qed

end
